theory Spec2Isabelle
  imports Main "HOL-Library.Sublist"
begin

section \<open>JavaScript values\<close>

text \<open>
  The loader of \<^verbatim>\<open>@typhonjs-node-rollup/plugin-replace\<close> handles a handful of JavaScript
  values: the \<^verbatim>\<open>replace\<close> flag (absent, an array of strings, or the object built by
  \<^verbatim>\<open>verify\<close>), the strings of that array, and the value decoded from the environment.

  Strings are lists of 8-bit characters: code units above \<^verbatim>\<open>0xFF\<close> are outside the model.
  Numbers are never inspected by the loader; their type is left unspecified.
  An array carries its elements and the named properties assigned to it; an object carries
  its own properties. The flag is declared with \<^verbatim>\<open>flags.string({ multiple: true })\<close>, so the
  elements of an array-valued flag are strings.
\<close>

typedecl js_number

datatype jsval =
    VUndefined
  | VNull
  | VBool bool
  | VNum js_number
  | VStr string
  | VArr "string list" "string \<Rightarrow> jsval option"
  | VObj "string \<Rightarrow> jsval option"

text \<open>The \<^verbatim>\<open>typeof\<close> operator.\<close>

fun typeof :: "jsval \<Rightarrow> string" where
  "typeof VUndefined = ''undefined''"
| "typeof VNull = ''object''"
| "typeof (VBool b) = ''boolean''"
| "typeof (VNum n) = ''number''"
| "typeof (VStr s) = ''string''"
| "typeof (VArr xs ps) = ''object''"
| "typeof (VObj ps) = ''object''"

text \<open>\<^verbatim>\<open>Array.isArray\<close>.\<close>

fun isArray :: "jsval \<Rightarrow> bool" where
  "isArray (VArr xs ps) = True"
| "isArray v = False"

text \<open>
  The property names every object literal inherits from \<^verbatim>\<open>Object.prototype\<close>
  (ECMAScript, Properties of the Object Prototype Object, with the legacy accessors
  of Annex B that Node.js provides).
\<close>

definition object_prototype_keys :: "string list" where
  "object_prototype_keys =
     [''constructor'', ''hasOwnProperty'', ''isPrototypeOf'', ''propertyIsEnumerable'',
      ''toLocaleString'', ''toString'', ''valueOf'', ''__proto__'',
      ''__defineGetter__'', ''__defineSetter__'', ''__lookupGetter__'', ''__lookupSetter__'']"

text \<open>
  The \<^verbatim>\<open>in\<close> operator on an object created by \<^verbatim>\<open>{}\<close>: the key is an own property or
  is found on the prototype.
\<close>

definition has_property :: "(string \<Rightarrow> jsval option) \<Rightarrow> string \<Rightarrow> bool" where
  "has_property own k \<longleftrightarrow> own k \<noteq> None \<or> k \<in> set object_prototype_keys"

datatype error = NonFatalError string | TypeError string

section \<open>The regular expression \<^verbatim>\<open>/(.+)=(.+)/\<close>\<close>

text \<open>
  \<^verbatim>\<open>.\<close> matches any character but a line terminator (line feed and carriage return
  among 8-bit characters).
\<close>

definition is_line_terminator :: "char \<Rightarrow> bool" where
  "is_line_terminator c \<longleftrightarrow> c = CHR 0x0A \<or> c = CHR 0x0D"

text \<open>
  The backtracking matcher, in continuation style as ECMAScript defines it.
  \<open>try_lengths n s k\<close> offers the continuation the first \<open>n\<close> characters of \<open>s\<close>, then
  \<open>n - 1\<close>, down to one character: the greedy \<^verbatim>\<open>.+\<close> gives characters back one at a time.
\<close>

fun try_lengths :: "nat \<Rightarrow> string \<Rightarrow> (string \<Rightarrow> string \<Rightarrow> 'a option) \<Rightarrow> 'a option" where
  "try_lengths 0 s k = None"
| "try_lengths (Suc n) s k =
     (case k (take (Suc n) s) (drop (Suc n) s) of
        Some r \<Rightarrow> Some r
      | None \<Rightarrow> try_lengths n s k)"

text \<open>\<^verbatim>\<open>(.+)\<close>: starts from the longest run of characters that are not line terminators.\<close>

definition dot_plus :: "string \<Rightarrow> (string \<Rightarrow> string \<Rightarrow> 'a option) \<Rightarrow> 'a option" where
  "dot_plus s k = try_lengths (length (takeWhile (\<lambda>c. \<not> is_line_terminator c) s)) s k"

text \<open>The literal \<^verbatim>\<open>=\<close>.\<close>

definition literal_equals :: "string \<Rightarrow> (string \<Rightarrow> 'a option) \<Rightarrow> 'a option" where
  "literal_equals s k = (case s of [] \<Rightarrow> None | c # cs \<Rightarrow> if c = CHR ''='' then k cs else None)"

text \<open>
  The whole pattern tried at the start of \<open>s\<close>. The result is the match array:
  the matched text, then the two groups.
\<close>

definition match_here :: "string \<Rightarrow> string list option" where
  "match_here s =
     dot_plus s (\<lambda>g1 r1.
       literal_equals r1 (\<lambda>r2.
         dot_plus r2 (\<lambda>g2 r3. Some [g1 @ ''='' @ g2, g1, g2])))"

text \<open>
  \<^verbatim>\<open>regex.exec(entry)\<close>: the pattern has no anchor and no flag, so the match is tried at
  each start position from the left; \<open>None\<close> is \<^verbatim>\<open>null\<close>.
\<close>

fun regex_exec :: "string \<Rightarrow> string list option" where
  "regex_exec [] = None"
| "regex_exec (c # cs) =
     (case match_here (c # cs) of
        Some m \<Rightarrow> Some m
      | None \<Rightarrow> regex_exec cs)"

section \<open>\<^verbatim>\<open>JSON.stringify\<close> on an array of strings\<close>

definition hex_digit :: "nat \<Rightarrow> char" where
  "hex_digit n = ''0123456789abcdef'' ! n"

text \<open>One character inside a JSON string literal (ECMAScript QuoteJSONString).\<close>

definition quote_char :: "char \<Rightarrow> string" where
  "quote_char c =
     (if c = CHR 0x22 then [CHR 0x5C, CHR 0x22]
      else if c = CHR 0x5C then [CHR 0x5C, CHR 0x5C]
      else if c = CHR 0x08 then [CHR 0x5C, CHR ''b'']
      else if c = CHR 0x0C then [CHR 0x5C, CHR ''f'']
      else if c = CHR 0x0A then [CHR 0x5C, CHR ''n'']
      else if c = CHR 0x0D then [CHR 0x5C, CHR ''r'']
      else if c = CHR 0x09 then [CHR 0x5C, CHR ''t'']
      else if (of_char c :: nat) < 32
        then [CHR 0x5C, CHR ''u'', CHR ''0'', CHR ''0'',
              hex_digit ((of_char c :: nat) div 16), hex_digit ((of_char c :: nat) mod 16)]
      else [c])"

definition quote_json_string :: "string \<Rightarrow> string" where
  "quote_json_string s = [CHR 0x22] @ concat (map quote_char s) @ [CHR 0x22]"

fun join_comma :: "string list \<Rightarrow> string" where
  "join_comma [] = []"
| "join_comma [x] = x"
| "join_comma (x # y # ys) = x @ '','' @ join_comma (y # ys)"

definition json_stringify :: "string list \<Rightarrow> string" where
  "json_stringify xs = ''['' @ join_comma (map quote_json_string xs) @ '']''"

section \<open>The flag verifier\<close>

text \<open>The three accumulators the \<^verbatim>\<open>forEach\<close> callback of \<^verbatim>\<open>verify\<close> closes over.\<close>

record scan_state =
  entries :: "string \<Rightarrow> jsval option"
  badEntries :: "string list"
  warnEntries :: "string list"

definition scan_init :: scan_state where
  "scan_init = \<lparr>entries = Map.empty, badEntries = [], warnEntries = []\<rparr>"

text \<open>The callback of \<^verbatim>\<open>flags.replace.forEach\<close>.\<close>

definition scan_entry :: "scan_state \<Rightarrow> string \<Rightarrow> scan_state" where
  "scan_entry st entry =
     (case regex_exec entry of
        Some matches \<Rightarrow>
          if length matches \<ge> 3 then
            (if has_property (entries st) (matches ! 1)
             then st\<lparr>warnEntries := warnEntries st @ [entry]\<rparr>
             else st\<lparr>entries := (entries st)(matches ! 1 \<mapsto> VStr (matches ! 2))\<rparr>)
          else st\<lparr>badEntries := badEntries st @ [entry]\<rparr>
      | None \<Rightarrow> st\<lparr>badEntries := badEntries st @ [entry]\<rparr>)"

definition scan :: "string list \<Rightarrow> scan_state" where
  "scan es = foldl scan_entry scan_init es"

text \<open>The CLI flags object; \<open>replace\<close> is the only flag the verifier reads or writes.\<close>

record flags =
  replace :: jsval

definition preface :: string where
  "preface = ''plugin-replace verification failure:'' @ [CHR 0x0A]"

definition bad_section :: "string list \<Rightarrow> string" where
  "bad_section bad =
     ''- can not parse '' @ json_stringify bad @ '' each ''
       @ ''entry must be a 'string' in the format of '<xxx>=<yyy>'.''"

definition warn_section :: "string list \<Rightarrow> string" where
  "warn_section warn =
     ''- the following '' @ ''entries overwrite previous entries '' @ json_stringify warn @ ''.''"

definition delimiters_marker :: jsval where
  "delimiters_marker = VArr ['''', ''''] Map.empty"

text \<open>
  \<^verbatim>\<open>verify(flags)\<close>. The function mutates \<open>flags\<close> and may throw: the result is the flags
  object as the function leaves it, and the error thrown, if any.
\<close>

definition verify :: "'a flags_scheme \<Rightarrow> 'a flags_scheme \<times> error option" where
  "verify fl =
     (case replace fl of
        VArr es ps \<Rightarrow>
          (let st = scan es;
               fl1 = fl\<lparr>replace := VObj (entries st)\<rparr>;
               fl2 = fl1\<lparr>replace := VObj ((entries st)(''delimiters'' \<mapsto> delimiters_marker))\<rparr>;
               errorMessage0 = preface;
               errorMessage1 =
                 (if length (badEntries st) > 0
                  then errorMessage0 @ bad_section (badEntries st)
                  else errorMessage0);
               errorMessage2 =
                 (if length (warnEntries st) > 0
                  then errorMessage1 @ (if length (badEntries st) > 0 then [CHR 0x0A] else '''')
                         @ warn_section (warnEntries st)
                  else errorMessage1)
           in if errorMessage2 \<noteq> preface
              then (fl2, Some (NonFatalError errorMessage2))
              else (fl2, None))
      | _ \<Rightarrow> (fl, None))"

section \<open>The flag default resolver\<close>

text \<open>A value decoded by \<^verbatim>\<open>JSON.parse\<close>.\<close>

datatype json =
    JNull
  | JBool bool
  | JNumber js_number
  | JString string
  | JArray "json list"
  | JObject "(string \<times> json) list"

fun json_isArray :: "json \<Rightarrow> bool" where
  "json_isArray (JArray xs) = True"
| "json_isArray v = False"

text \<open>
  The \<^verbatim>\<open>default\<close> function of the \<^verbatim>\<open>replace\<close> flag. What it reads from its surroundings
  is passed in: \<open>JSON_parse\<close> is the engine's \<^verbatim>\<open>JSON.parse\<close> (\<open>Inl\<close> carries the message of
  the error it throws), \<open>cli_env_prefix\<close> is the text of \<^verbatim>\<open>globalThis.$$cli_env_prefix\<close>,
  \<open>context_is_null\<close> tells whether the function was called with \<^verbatim>\<open>null\<close>, and \<open>process_env\<close>
  looks a name up in \<^verbatim>\<open>process.env\<close> (\<open>VUndefined\<close> when unset). The lookup in the empty
  object used for a \<^verbatim>\<open>null\<close> context never yields a string.
  The result \<open>Inr None\<close> is \<^verbatim>\<open>undefined\<close>.
\<close>

definition flag_default ::
  "(string \<Rightarrow> string + json) \<Rightarrow> string \<Rightarrow> bool \<Rightarrow> (string \<Rightarrow> jsval) \<Rightarrow> error + json option" where
  "flag_default JSON_parse cli_env_prefix context_is_null process_env =
     (let envVars = (if context_is_null then (\<lambda>name. VUndefined) else process_env);
          envVar = cli_env_prefix @ ''_REPLACE''
      in case envVars envVar of
           VStr text \<Rightarrow>
             (case JSON_parse text of
                Inl message \<Rightarrow>
                  Inl (NonFatalError
                    (''Could not parse '' @ [CHR 0x27] @ envVar @ [CHR 0x27]
                       @ '' as a JSON array;'' @ [CHR 0x0A] @ message))
              | Inr result \<Rightarrow>
                  if \<not> json_isArray result
                  then Inl (NonFatalError
                    (''Please format '' @ [CHR 0x27] @ envVar @ [CHR 0x27] @ '' as a JSON array.''))
                  else Inr (Some result))
         | _ \<Rightarrow> Inr None)"

section \<open>The transform configuration factory\<close>

text \<open>
  The configuration object handed to the event handlers; \<open>cliFlags = None\<close> is a missing
  (or otherwise falsy) \<^verbatim>\<open>cliFlags\<close>.
\<close>

record bundleData =
  cliFlags :: "flags option"

text \<open>
  \<^verbatim>\<open>getInputPlugin(bundleData = {})\<close>, in the revision that passes
  \<^verbatim>\<open>Object.assign(bundleData.cliFlags.replace, { preventAssignment: true })\<close> to the
  imported \<^verbatim>\<open>replace\<close>. The imported function is the parameter \<open>replace_plugin\<close>.
  \<^verbatim>\<open>Object.assign\<close> writes into its target, so the function returns the configuration
  object as it leaves it, beside its result; \<open>Inr None\<close> is \<^verbatim>\<open>undefined\<close>.
  \<^verbatim>\<open>typeof null\<close> is \<^verbatim>\<open>'object'\<close>, and \<^verbatim>\<open>Object.assign\<close> throws a \<^verbatim>\<open>TypeError\<close> on it.
\<close>

definition getInputPlugin ::
  "(jsval \<Rightarrow> 'p) \<Rightarrow> bundleData option \<Rightarrow> bundleData \<times> (error + 'p option)" where
  "getInputPlugin replace_plugin arg =
     (let bundleData = (case arg of None \<Rightarrow> \<lparr>cliFlags = None\<rparr> | Some b \<Rightarrow> b)
      in case cliFlags bundleData of
           None \<Rightarrow> (bundleData, Inr None)
         | Some fl \<Rightarrow>
             if typeof (replace fl) = ''object'' then
               (case replace fl of
                  VObj ps \<Rightarrow>
                    (let target = VObj (ps(''preventAssignment'' \<mapsto> VBool True))
                     in (bundleData\<lparr>cliFlags := Some (fl\<lparr>replace := target\<rparr>)\<rparr>,
                         Inr (Some (replace_plugin target))))
                | VArr xs ps \<Rightarrow>
                    (let target = VArr xs (ps(''preventAssignment'' \<mapsto> VBool True))
                     in (bundleData\<lparr>cliFlags := Some (fl\<lparr>replace := target\<rparr>)\<rparr>,
                         Inr (Some (replace_plugin target))))
                | _ \<Rightarrow>
                    (bundleData,
                     Inl (TypeError ''Cannot convert undefined or null to object'')))
             else (bundleData, Inr None))"

text \<open>
  The same function in the revision of \<^verbatim>\<open>src/loader/PluginLoader.js\<close> that calls
  \<^verbatim>\<open>replace(bundleData.cliFlags.replace)\<close>: nothing is assigned.
\<close>

definition getInputPlugin_unassigned ::
  "(jsval \<Rightarrow> 'p) \<Rightarrow> bundleData option \<Rightarrow> bundleData \<times> (error + 'p option)" where
  "getInputPlugin_unassigned replace_plugin arg =
     (let bundleData = (case arg of None \<Rightarrow> \<lparr>cliFlags = None\<rparr> | Some b \<Rightarrow> b)
      in case cliFlags bundleData of
           None \<Rightarrow> (bundleData, Inr None)
         | Some fl \<Rightarrow>
             if typeof (replace fl) = ''object''
             then (bundleData, Inr (Some (replace_plugin (replace fl))))
             else (bundleData, Inr None))"

section \<open>The vocabulary of the specification\<close>

text \<open>
  Every way of cutting a string at one of its \<^verbatim>\<open>=\<close> characters: the text before the
  character and the text after it.
\<close>

fun equals_splits :: "string \<Rightarrow> (string \<times> string) list" where
  "equals_splits [] = []"
| "equals_splits (c # cs) =
     (if c = CHR ''='' then [([], cs)] else [])
       @ map (\<lambda>(k, v). (c # k, v)) (equals_splits cs)"

text \<open>
  An entry with no \<^verbatim>\<open>=\<close> character, or with empty text on either side of every \<^verbatim>\<open>=\<close>.
\<close>

definition lacks_separator :: "string \<Rightarrow> bool" where
  "lacks_separator e \<longleftrightarrow> (\<forall>(k, v) \<in> set (equals_splits e). k = [] \<or> v = [])"

text \<open>
  Splitting on the last \<^verbatim>\<open>=\<close>, as the specification words it: the key is everything before
  the last \<^verbatim>\<open>=\<close> and the value everything after it.
\<close>

definition split_last_equals :: "string \<Rightarrow> (string \<times> string) option" where
  "split_last_equals s =
     (if CHR ''='' \<in> set s
      then Some (rev (tl (dropWhile (\<lambda>c. c \<noteq> CHR ''='') (rev s))),
                 rev (takeWhile (\<lambda>c. c \<noteq> CHR ''='') (rev s)))
      else None)"

section \<open>Properties of the regular expression\<close>

lemma try_lengths_first:
  assumes "1 \<le> j" "j \<le> n" "k (take j s) (drop j s) = Some r"
    and "\<And>i. j < i \<Longrightarrow> i \<le> n \<Longrightarrow> k (take i s) (drop i s) = None"
  shows "try_lengths n s k = Some r"
  using assms
proof (induction n)
  case 0
  then show ?case by simp
next
  case (Suc n)
  show ?case
  proof (cases "j = Suc n")
    case True
    with Suc.prems(3) show ?thesis by simp
  next
    case False
    with Suc.prems have "j \<le> n" by simp
    moreover have "k (take (Suc n) s) (drop (Suc n) s) = None"
      using Suc.prems(4) [of "Suc n"] \<open>j \<le> n\<close> by simp
    ultimately show ?thesis
      using Suc.IH Suc.prems by simp
  qed
qed

lemma try_lengths_SomeD:
  "try_lengths n s k = Some r \<Longrightarrow> \<exists>j. 1 \<le> j \<and> j \<le> n \<and> k (take j s) (drop j s) = Some r"
proof (induction n)
  case 0
  then show ?case by simp
next
  case (Suc n)
  show ?case
  proof (cases "k (take (Suc n) s) (drop (Suc n) s)")
    case None
    with Suc obtain j where "1 \<le> j" "j \<le> n" "k (take j s) (drop j s) = Some r"
      by auto
    then show ?thesis by (intro exI [of _ j]) simp
  next
    case (Some a)
    with Suc.prems have "a = r" by simp
    with Some show ?thesis by (intro exI [of _ "Suc n"]) simp
  qed
qed

lemma takeWhile_no_terminator:
  "\<forall>c \<in> set s. \<not> is_line_terminator c \<Longrightarrow> takeWhile (\<lambda>c. \<not> is_line_terminator c) s = s"
  by (simp add: takeWhile_eq_all_conv)

lemma dot_plus_all:
  assumes "v \<noteq> []" "\<forall>c \<in> set v. \<not> is_line_terminator c"
  shows "dot_plus v (\<lambda>g r. Some (f g)) = Some (f v)"
proof -
  obtain n where n: "length v = Suc n" using assms(1) by (cases v) auto
  show ?thesis
    using assms(2) n by (simp add: dot_plus_def takeWhile_no_terminator)
qed

lemma dot_plus_Nil: "dot_plus [] k = None"
  by (simp add: dot_plus_def)

lemma dot_plus_SomeD:
  assumes "dot_plus s k = Some r"
  shows "\<exists>j. 1 \<le> j \<and> j \<le> length s \<and> k (take j s) (drop j s) = Some r"
proof -
  from assms obtain j where j: "1 \<le> j" "j \<le> length (takeWhile (\<lambda>c. \<not> is_line_terminator c) s)"
      "k (take j s) (drop j s) = Some r"
    unfolding dot_plus_def by (blast dest: try_lengths_SomeD)
  have "length (takeWhile (\<lambda>c. \<not> is_line_terminator c) s) \<le> length s"
    by (rule length_takeWhile_le)
  with j show ?thesis by (intro exI [of _ j]) simp
qed

lemma match_here_split:
  assumes k: "k \<noteq> []" and v: "v \<noteq> []"
    and nolt: "\<forall>c \<in> set (k @ ''='' @ v). \<not> is_line_terminator c"
    and last_eq: "CHR ''='' \<notin> set (butlast v)"
  shows "match_here (k @ ''='' @ v) = Some [k @ ''='' @ v, k, v]"
proof -
  let ?s = "k @ ''='' @ v"
  let ?K = "\<lambda>g1 r1. literal_equals r1 (\<lambda>r2. dot_plus r2 (\<lambda>g2 r3. Some [g1 @ ''='' @ g2, g1, g2]))"
  have v_nolt: "\<forall>c \<in> set v. \<not> is_line_terminator c" using nolt by simp
  have at: "?K (take (length k) ?s) (drop (length k) ?s) = Some [?s, k, v]"
    using dot_plus_all [OF v v_nolt, of "\<lambda>g2. [k @ ''='' @ g2, k, g2]"]
    by (simp add: literal_equals_def)
  have above: "?K (take i ?s) (drop i ?s) = None" if i: "length k < i" "i \<le> length ?s" for i
  proof -
    define d where "d = i - Suc (length k)"
    have "i - length k = Suc d" using i by (simp add: d_def)
    then have dr: "drop i ?s = drop d v" using i by simp
    show ?thesis
    proof (cases "drop d v")
      case Nil
      then show ?thesis unfolding dr by (simp add: literal_equals_def)
    next
      case (Cons c cs)
      then have dv: "d < length v" by (cases "d < length v") auto
      have c: "c = v ! d" and cs: "cs = drop (Suc d) v"
        using Cons dv by (simp_all add: Cons_nth_drop_Suc [symmetric])
      show ?thesis
      proof (cases "c = CHR ''=''")
        case False
        then show ?thesis unfolding dr Cons by (simp add: literal_equals_def)
      next
        case True
        have "Suc d = length v"
        proof (rule ccontr)
          assume "Suc d \<noteq> length v"
          with dv have "d < length (butlast v)" by simp
          then have "butlast v ! d \<in> set (butlast v)" by (rule nth_mem)
          moreover have "butlast v ! d = v ! d"
            using \<open>d < length (butlast v)\<close> by (simp add: nth_butlast)
          ultimately show False using last_eq True c by simp
        qed
        then have "cs = []" using cs by simp
        then show ?thesis unfolding dr Cons by (simp add: literal_equals_def dot_plus_Nil)
      qed
    qed
  qed
  have "try_lengths (length ?s) ?s ?K = Some [?s, k, v]"
  proof (rule try_lengths_first [where j = "length k"])
    show "1 \<le> length k" using k by (cases k) auto
    show "length k \<le> length ?s" by simp
    show "?K (take (length k) ?s) (drop (length k) ?s) = Some [?s, k, v]" by (rule at)
    show "\<And>i. length k < i \<Longrightarrow> i \<le> length ?s \<Longrightarrow> ?K (take i ?s) (drop i ?s) = None"
      by (rule above)
  qed
  then show ?thesis
    using nolt unfolding match_here_def dot_plus_def
    by (simp only: takeWhile_no_terminator)
qed

lemma regex_exec_split:
  assumes "k \<noteq> []" "v \<noteq> []"
    and "\<forall>c \<in> set (k @ ''='' @ v). \<not> is_line_terminator c"
    and "CHR ''='' \<notin> set (butlast v)"
  shows "regex_exec (k @ ''='' @ v) = Some [k @ ''='' @ v, k, v]"
proof -
  obtain c cs where "k @ ''='' @ v = c # cs" using assms(1) by (cases k) auto
  moreover have "match_here (k @ ''='' @ v) = Some [k @ ''='' @ v, k, v]"
    using assms by (rule match_here_split)
  ultimately show ?thesis by simp
qed

lemma match_here_SomeD:
  assumes "match_here s = Some m"
  shows "\<exists>k v post. s = k @ ''='' @ v @ post \<and> m = [k @ ''='' @ v, k, v] \<and> k \<noteq> [] \<and> v \<noteq> []"
proof -
  let ?K2 = "\<lambda>g1 g2 (r3::string). Some [g1 @ ''='' @ g2, g1, g2]"
  from assms obtain j where j: "1 \<le> j" "j \<le> length s"
    "literal_equals (drop j s) (\<lambda>r2. dot_plus r2 (?K2 (take j s))) = Some m"
    unfolding match_here_def by (blast dest: dot_plus_SomeD)
  from j(3) obtain r2 where r2: "drop j s = CHR ''='' # r2"
    "dot_plus r2 (?K2 (take j s)) = Some m"
    by (auto simp: literal_equals_def split: list.splits if_splits)
  from r2(2) obtain i where i: "1 \<le> i" "i \<le> length r2"
    "m = [take j s @ ''='' @ take i r2, take j s, take i r2]"
    by (auto dest!: dot_plus_SomeD)
  have "s = take j s @ drop j s" by simp
  also have "\<dots> = take j s @ ''='' @ take i r2 @ drop i r2"
    using r2(1) by simp
  finally have "s = take j s @ ''='' @ take i r2 @ drop i r2" .
  moreover have "take j s \<noteq> []" using j by (cases s) auto
  moreover have "take i r2 \<noteq> []" using i by (cases r2) auto
  ultimately show ?thesis using i(3) by blast
qed

lemma regex_exec_SomeD:
  "regex_exec s = Some m \<Longrightarrow>
     \<exists>pre k v post. s = pre @ k @ ''='' @ v @ post \<and> m = [k @ ''='' @ v, k, v] \<and> k \<noteq> [] \<and> v \<noteq> []"
proof (induction s)
  case Nil
  then show ?case by simp
next
  case (Cons c cs)
  show ?case
  proof (cases "match_here (c # cs)")
    case None
    with Cons obtain pre k v post where
      "cs = pre @ k @ ''='' @ v @ post" "m = [k @ ''='' @ v, k, v]" "k \<noteq> []" "v \<noteq> []"
      by auto
    then have "c # cs = (c # pre) @ k @ ''='' @ v @ post" by simp
    with \<open>m = _\<close> \<open>k \<noteq> []\<close> \<open>v \<noteq> []\<close> show ?thesis by blast
  next
    case (Some a)
    with Cons.prems have "match_here (c # cs) = Some m" by simp
    then obtain k v post where
      "c # cs = k @ ''='' @ v @ post" "m = [k @ ''='' @ v, k, v]" "k \<noteq> []" "v \<noteq> []"
      by (blast dest: match_here_SomeD)
    then have "c # cs = [] @ k @ ''='' @ v @ post" by simp
    with \<open>m = _\<close> \<open>k \<noteq> []\<close> \<open>v \<noteq> []\<close> show ?thesis by blast
  qed
qed

lemma regex_exec_length: "regex_exec s = Some m \<Longrightarrow> length m = 3"
  by (auto dest!: regex_exec_SomeD)

section \<open>Properties of the scan and of the message\<close>

lemma scan_entry_None:
  "regex_exec e = None \<Longrightarrow> scan_entry st e = st\<lparr>badEntries := badEntries st @ [e]\<rparr>"
  by (simp add: scan_entry_def)

lemma scan_entry_Some:
  "regex_exec e = Some m \<Longrightarrow>
     scan_entry st e =
       (if has_property (entries st) (m ! 1)
        then st\<lparr>warnEntries := warnEntries st @ [e]\<rparr>
        else st\<lparr>entries := (entries st)(m ! 1 \<mapsto> VStr (m ! 2))\<rparr>)"
  by (simp add: scan_entry_def regex_exec_length)

lemma scan_append: "scan (xs @ ys) = foldl scan_entry (scan xs) ys"
  by (simp add: scan_def)

lemma has_property_update: "has_property own k \<Longrightarrow> has_property (own(k' \<mapsto> v)) k"
  by (simp add: has_property_def)

lemma scan_entry_kept:
  "has_property (entries st) k \<Longrightarrow> entries (scan_entry st e) k = entries st k"
  by (cases "regex_exec e") (auto simp: scan_entry_None scan_entry_Some)

lemma scan_entry_has_property:
  "has_property (entries st) k \<Longrightarrow> has_property (entries (scan_entry st e)) k"
  by (cases "regex_exec e") (auto simp: scan_entry_None scan_entry_Some has_property_update)

lemma foldl_scan_kept:
  "has_property (entries st) k \<Longrightarrow> entries (foldl scan_entry st es) k = entries st k"
proof (induction es arbitrary: st)
  case Nil
  then show ?case by simp
next
  case (Cons e es)
  have "entries (foldl scan_entry (scan_entry st e) es) k = entries (scan_entry st e) k"
    using Cons.prems by (intro Cons.IH scan_entry_has_property)
  then show ?case using Cons.prems by (simp add: scan_entry_kept)
qed

lemma foldl_scan_bad:
  "badEntries (foldl scan_entry st es) = badEntries st @ filter (\<lambda>e. regex_exec e = None) es"
proof (induction es arbitrary: st)
  case Nil
  then show ?case by simp
next
  case (Cons e es)
  show ?case
    by (cases "regex_exec e") (simp_all add: Cons.IH scan_entry_None scan_entry_Some)
qed

lemma scan_bad: "badEntries (scan es) = filter (\<lambda>e. regex_exec e = None) es"
  by (simp add: scan_def foldl_scan_bad scan_init_def)

lemma scan_entry_warn_mono:
  "x \<in> set (warnEntries st) \<Longrightarrow> x \<in> set (warnEntries (scan_entry st e))"
  by (cases "regex_exec e") (auto simp: scan_entry_None scan_entry_Some)

lemma foldl_scan_warn_mono:
  "x \<in> set (warnEntries st) \<Longrightarrow> x \<in> set (warnEntries (foldl scan_entry st es))"
  by (induction es arbitrary: st) (simp_all add: scan_entry_warn_mono)

lemma foldl_scan_entries_cong:
  assumes "entries st = entries st'" and "\<forall>x \<in> set es. \<not> P x \<longrightarrow> regex_exec x = None"
  shows "entries (foldl scan_entry st es) = entries (foldl scan_entry st' (filter P es))"
  using assms
proof (induction es arbitrary: st st')
  case Nil
  then show ?case by simp
next
  case (Cons e es)
  have rest: "\<forall>x \<in> set es. \<not> P x \<longrightarrow> regex_exec x = None" using Cons.prems(2) by simp
  show ?case
  proof (cases "P e")
    case True
    have "entries (scan_entry st e) = entries (scan_entry st' e)"
      using Cons.prems(1) by (cases "regex_exec e") (simp_all add: scan_entry_None scan_entry_Some)
    then show ?thesis using True Cons.IH [OF _ rest] by simp
  next
    case False
    then have "regex_exec e = None" using Cons.prems(2) by simp
    then have "entries (scan_entry st e) = entries st'"
      using Cons.prems(1) by (simp add: scan_entry_None)
    then show ?thesis using False Cons.IH [OF _ rest] by simp
  qed
qed

lemma scan_duplicate:
  assumes "regex_exec e = Some m" and "has_property (entries (scan pre)) (m ! 1)"
  shows "scan (pre @ [e]) = (scan pre)\<lparr>warnEntries := warnEntries (scan pre) @ [e]\<rparr>"
    and "e \<in> set (warnEntries (scan (pre @ e # post)))"
    and "entries (scan (pre @ e # post)) (m ! 1) = entries (scan pre) (m ! 1)"
proof -
  show step: "scan (pre @ [e]) = (scan pre)\<lparr>warnEntries := warnEntries (scan pre) @ [e]\<rparr>"
    using assms by (simp add: scan_append scan_entry_Some)
  have split: "scan (pre @ e # post) = foldl scan_entry (scan (pre @ [e])) post"
    by (simp add: scan_def)
  show "e \<in> set (warnEntries (scan (pre @ e # post)))"
    unfolding split by (rule foldl_scan_warn_mono) (simp add: step)
  show "entries (scan (pre @ e # post)) (m ! 1) = entries (scan pre) (m ! 1)"
    unfolding split using assms(2) by (subst foldl_scan_kept) (simp_all add: step)
qed

lemma prototype_key_flagged:
  assumes "e \<in> set es" "regex_exec e = Some m" "m ! 1 \<in> set object_prototype_keys"
  shows "e \<in> set (warnEntries (scan es))"
proof -
  from assms(1) obtain pre post where es: "es = pre @ e # post"
    by (auto simp: in_set_conv_decomp)
  have "has_property (entries (scan pre)) (m ! 1)"
    using assms(3) by (simp add: has_property_def)
  then show ?thesis unfolding es using assms(2) by (intro scan_duplicate(2))
qed

lemma prototype_key_absent:
  assumes "k \<in> set object_prototype_keys"
  shows "entries (scan es) k = None"
proof -
  have "has_property (entries scan_init) k" using assms by (simp add: has_property_def)
  then have "entries (foldl scan_entry scan_init es) k = entries scan_init k"
    by (rule foldl_scan_kept)
  then show ?thesis by (simp add: scan_def scan_init_def)
qed

lemma bad_section_not_Nil: "bad_section bad \<noteq> []"
  by (simp add: bad_section_def)

lemma warn_section_not_Nil: "warn_section warn \<noteq> []"
  by (simp add: warn_section_def)

lemma verify_array:
  assumes "replace fl = VArr es ps"
  shows "verify fl =
    (fl\<lparr>replace := VObj ((entries (scan es))(''delimiters'' \<mapsto> delimiters_marker))\<rparr>,
     if badEntries (scan es) = [] \<and> warnEntries (scan es) = [] then None
     else Some (NonFatalError (preface
       @ (if badEntries (scan es) = [] then [] else bad_section (badEntries (scan es)))
       @ (if warnEntries (scan es) = [] then []
          else (if badEntries (scan es) = [] then [] else [CHR 0x0A])
                 @ warn_section (warnEntries (scan es))))))"
  using assms bad_section_not_Nil warn_section_not_Nil
  by (simp add: verify_def Let_def)

lemma sublist_join_comma: "x \<in> set xs \<Longrightarrow> sublist x (join_comma xs)"
proof (induction xs rule: join_comma.induct)
  case 1
  then show ?case by simp
next
  case (2 y)
  then show ?case by simp
next
  case (3 y z zs)
  show ?case
  proof (cases "x = y")
    case True
    then show ?thesis by simp
  next
    case False
    with 3 have "sublist x (join_comma (z # zs))" by simp
    then obtain p s where "join_comma (z # zs) = p @ x @ s" by (auto simp: sublist_def)
    then have "join_comma (y # z # zs) = (y @ '','' @ p) @ x @ s" by simp
    then show ?thesis unfolding sublist_def by blast
  qed
qed

lemma sublist_json_stringify:
  assumes "x \<in> set xs"
  shows "sublist (quote_json_string x) (json_stringify xs)"
proof -
  have "sublist (quote_json_string x) (join_comma (map quote_json_string xs))"
    using assms by (intro sublist_join_comma) simp
  then obtain p s where "join_comma (map quote_json_string xs) = p @ quote_json_string x @ s"
    by (auto simp: sublist_def)
  then have "json_stringify xs = (''['' @ p) @ quote_json_string x @ (s @ '']'')"
    by (simp add: json_stringify_def)
  then show ?thesis unfolding sublist_def by blast
qed

section \<open>Where the bindings of the map come from\<close>

lemma scan_entry_origin:
  assumes "entries (scan_entry st e) k = Some v"
  shows "entries st k = Some v \<or> (\<exists>m. regex_exec e = Some m \<and> m ! 1 = k \<and> v = VStr (m ! 2))"
  using assms by (cases "regex_exec e") (auto simp: scan_entry_None scan_entry_Some split: if_splits)

lemma foldl_scan_origin:
  assumes "entries (foldl scan_entry st es) k = Some v"
  shows "entries st k = Some v
    \<or> (\<exists>e m. e \<in> set es \<and> regex_exec e = Some m \<and> m ! 1 = k \<and> v = VStr (m ! 2))"
  using assms
proof (induction es arbitrary: st)
  case Nil
  then show ?case by simp
next
  case (Cons e es)
  from Cons.prems have "entries (foldl scan_entry (scan_entry st e) es) k = Some v" by simp
  from Cons.IH [OF this] show ?case
  proof
    assume "entries (scan_entry st e) k = Some v"
    from scan_entry_origin [OF this] show ?thesis by auto
  next
    assume "\<exists>e m. e \<in> set es \<and> regex_exec e = Some m \<and> m ! 1 = k \<and> v = VStr (m ! 2)"
    then show ?thesis by auto
  qed
qed

lemma scan_origin:
  assumes "entries (scan es) k = Some v"
  shows "\<exists>e m. e \<in> set es \<and> regex_exec e = Some m \<and> m ! 1 = k \<and> v = VStr (m ! 2)"
  using foldl_scan_origin [of scan_init es k v] assms by (simp add: scan_def scan_init_def)

text \<open>The definitions a concrete call of \<^verbatim>\<open>verify\<close> unfolds to.\<close>

lemmas evaluate =
  verify_def scan_def scan_entry_def scan_init_def match_here_def dot_plus_def
  literal_equals_def is_line_terminator_def has_property_def object_prototype_keys_def
  preface_def bad_section_def warn_section_def json_stringify_def quote_json_string_def
  quote_char_def Let_def

section \<open>What the message lists\<close>

lemma sublist_warn_section:
  "x \<in> set warn \<Longrightarrow> sublist (quote_json_string x) (warn_section warn)"
proof -
  assume "x \<in> set warn"
  then have "sublist (quote_json_string x) (json_stringify warn)"
    by (rule sublist_json_stringify)
  moreover have "sublist (json_stringify warn) (warn_section warn)"
    unfolding warn_section_def
    by (metis append.assoc sublist_appendI)
  ultimately show ?thesis by (rule sublist_order.order_trans)
qed

lemma sublist_bad_section:
  "x \<in> set bad \<Longrightarrow> sublist (quote_json_string x) (bad_section bad)"
proof -
  assume "x \<in> set bad"
  then have "sublist (quote_json_string x) (json_stringify bad)"
    by (rule sublist_json_stringify)
  moreover have "sublist (json_stringify bad) (bad_section bad)"
    unfolding bad_section_def by (rule sublist_appendI)
  ultimately show ?thesis by (rule sublist_order.order_trans)
qed

lemma verify_warn_message:
  assumes "replace fl = VArr es ps" and "x \<in> set (warnEntries (scan es))"
  shows "\<exists>message. snd (verify fl) = Some (NonFatalError message)
           \<and> prefix preface message
           \<and> sublist (warn_section (warnEntries (scan es))) message"
proof -
  from assms(2) have ne: "warnEntries (scan es) \<noteq> []" by auto
  let ?p = "preface @ (if badEntries (scan es) = [] then [] else bad_section (badEntries (scan es)))
               @ (if badEntries (scan es) = [] then [] else [CHR 0x0A])"
  have "snd (verify fl) = Some (NonFatalError (?p @ warn_section (warnEntries (scan es))))"
    using ne by (simp add: verify_array [OF assms(1)])
  moreover have "prefix preface (?p @ warn_section (warnEntries (scan es)))" by simp
  moreover have "sublist (warn_section (warnEntries (scan es)))
      (?p @ warn_section (warnEntries (scan es)))"
    by (rule sublist_append_leftI)
  ultimately show ?thesis by blast
qed

lemma verify_bad_message:
  assumes "replace fl = VArr es ps" and "x \<in> set (badEntries (scan es))"
  shows "\<exists>message. snd (verify fl) = Some (NonFatalError message)
           \<and> prefix (preface @ bad_section (badEntries (scan es))) message"
proof -
  from assms(2) have ne: "badEntries (scan es) \<noteq> []" by auto
  show ?thesis using ne by (simp add: verify_array [OF assms(1)])
qed

section \<open>Entries without a separator\<close>

lemma equals_splits_Cons:
  "(a, b) \<in> set (equals_splits s) \<Longrightarrow> (c # a, b) \<in> set (equals_splits (c # s))"
  by (force simp: image_iff)

lemma equals_splits_mem: "(a, b) \<in> set (equals_splits (a @ ''='' @ b))"
proof (induction a)
  case Nil
  show ?case by simp
next
  case (Cons c a)
  then have "(c # a, b) \<in> set (equals_splits (c # a @ ''='' @ b))"
    by (rule equals_splits_Cons)
  then show ?case by simp
qed

lemma equals_splits_prefix:
  "(a, b) \<in> set (equals_splits s) \<Longrightarrow> (p @ a, b) \<in> set (equals_splits (p @ s))"
proof (induction p)
  case Nil
  then show ?case by simp
next
  case (Cons c p)
  then have "(c # p @ a, b) \<in> set (equals_splits (c # p @ s))"
    by (intro equals_splits_Cons)
  then show ?case by simp
qed

lemma lacks_separatorD:
  "lacks_separator e \<Longrightarrow> (k, v) \<in> set (equals_splits e) \<Longrightarrow> k = [] \<or> v = []"
  unfolding lacks_separator_def by (drule bspec, assumption) simp

lemma lacks_separator_no_match:
  assumes "lacks_separator e"
  shows "regex_exec e = None"
proof (rule ccontr)
  assume "regex_exec e \<noteq> None"
  then obtain m where "regex_exec e = Some m" by auto
  then obtain pre k v post where e: "e = pre @ k @ ''='' @ v @ post" and "k \<noteq> []" "v \<noteq> []"
    by (blast dest: regex_exec_SomeD)
  have "(k, v @ post) \<in> set (equals_splits (k @ ''='' @ v @ post))"
    by (rule equals_splits_mem)
  then have "(pre @ k, v @ post) \<in> set (equals_splits e)"
    unfolding e by (rule equals_splits_prefix)
  with assms have "pre @ k = [] \<or> v @ post = []"
    by (rule lacks_separatorD)
  with \<open>k \<noteq> []\<close> \<open>v \<noteq> []\<close> show False by simp
qed

lemma sublist_shape_bad_section:
  "sublist ''entry must be a 'string' in the format of '<xxx>=<yyy>'.'' (bad_section bad)"
proof -
  have "bad_section bad = (''- can not parse '' @ json_stringify bad @ '' each '')
      @ ''entry must be a 'string' in the format of '<xxx>=<yyy>'.''"
    by (simp add: bad_section_def)
  then show ?thesis by (simp only: sublist_append_leftI)
qed

section \<open>A single entry; the last separator\<close>

lemma equals_not_terminator: "\<not> is_line_terminator CHR ''=''"
  by (simp add: is_line_terminator_def)

lemma scan_single:
  assumes "regex_exec e = Some m" and "\<not> has_property Map.empty (m ! 1)"
  shows "scan [e] = \<lparr>entries = [m ! 1 \<mapsto> VStr (m ! 2)], badEntries = [], warnEntries = []\<rparr>"
  using assms by (simp add: scan_def scan_init_def scan_entry_Some)

lemma split_last_equals_decomp:
  assumes "CHR ''='' \<in> set s"
  obtains k v where "split_last_equals s = Some (k, v)" "s = k @ ''='' @ v" "CHR ''='' \<notin> set v"
proof -
  let ?P = "\<lambda>c. c \<noteq> CHR ''=''"
  define v where "v = rev (takeWhile ?P (rev s))"
  define k where "k = rev (tl (dropWhile ?P (rev s)))"
  have ne: "dropWhile ?P (rev s) \<noteq> []" using assms by (simp add: dropWhile_eq_Nil_conv)
  then have "hd (dropWhile ?P (rev s)) = CHR ''=''"
    using hd_dropWhile [of ?P "rev s"] by simp
  with ne have "dropWhile ?P (rev s) = CHR ''='' # rev k"
    by (cases "dropWhile ?P (rev s)") (simp_all add: k_def)
  then have "rev s = rev v @ CHR ''='' # rev k"
    using takeWhile_dropWhile_id [of ?P "rev s"] by (simp add: v_def)
  then have "rev (rev s) = rev (rev v @ CHR ''='' # rev k)" by simp
  then have s: "s = k @ ''='' @ v" by simp
  have "CHR ''='' \<notin> set (takeWhile ?P (rev s))"
    by (auto dest: set_takeWhileD)
  then have nv: "CHR ''='' \<notin> set v" by (simp add: v_def)
  have "split_last_equals s = Some (k, v)"
    using assms by (simp add: split_last_equals_def k_def v_def)
  then show ?thesis using s nv by (rule that)
qed

section \<open>The claims\<close>

text \<open>
  Claim C1. When a well-formed entry is scanned and its key is already present in the
  accumulating map (for the \<^verbatim>\<open>in\<close> operator), the map is left as it is, so the earlier
  binding stays until the end of the scan; the entry itself is appended to \<^verbatim>\<open>warnEntries\<close>;
  and \<^verbatim>\<open>verify\<close> throws a \<^verbatim>\<open>NonFatalError\<close> whose message holds the section of the
  overwriting entries, with the entry in it as \<^verbatim>\<open>JSON.stringify\<close> writes it.
  In particular \<^verbatim>\<open>["a=1", "a=2"]\<close> stores the map \<^verbatim>\<open>{a: "1"}\<close> (tagged with the delimiters
  marker) and the message lists \<^verbatim>\<open>"a=2"\<close>.
\<close>

theorem C1_duplicate_key_flagged:
  assumes "replace fl = VArr (pre @ e # post) ps"
    and "regex_exec e = Some m"
    and "has_property (entries (scan pre)) (m ! 1)"
  shows "entries (scan (pre @ [e])) = entries (scan pre)
       \<and> entries (scan (pre @ e # post)) (m ! 1) = entries (scan pre) (m ! 1)
       \<and> warnEntries (scan (pre @ [e])) = warnEntries (scan pre) @ [e]
       \<and> e \<in> set (warnEntries (scan (pre @ e # post)))
       \<and> (\<exists>message. snd (verify fl) = Some (NonFatalError message)
            \<and> sublist (warn_section (warnEntries (scan (pre @ e # post)))) message
            \<and> sublist (quote_json_string e) message)
       \<and> verify \<lparr>replace = VArr [''a=1'', ''a=2''] Map.empty\<rparr>
           = (\<lparr>replace = VObj [''a'' \<mapsto> VStr ''1'', ''delimiters'' \<mapsto> delimiters_marker]\<rparr>,
              Some (NonFatalError (''plugin-replace verification failure:'' @ [CHR 0x0A]
                @ ''- the following entries overwrite previous entries [''
                @ [CHR 0x22] @ ''a=2'' @ [CHR 0x22] @ ''].'')))"
proof -
  note dup = scan_duplicate [OF assms(2,3)]
  have step: "entries (scan (pre @ [e])) = entries (scan pre)"
    and warn: "warnEntries (scan (pre @ [e])) = warnEntries (scan pre) @ [e]"
    by (simp_all add: dup(1))
  have listed: "e \<in> set (warnEntries (scan (pre @ e # post)))" by (rule dup(2))
  obtain message where msg: "snd (verify fl) = Some (NonFatalError message)"
    "sublist (warn_section (warnEntries (scan (pre @ e # post)))) message"
    using verify_warn_message [OF assms(1) listed] by blast
  have "sublist (quote_json_string e) message"
    using sublist_warn_section [OF listed] msg(2) by (rule sublist_order.order_trans)
  with msg have thrown: "\<exists>message. snd (verify fl) = Some (NonFatalError message)
            \<and> sublist (warn_section (warnEntries (scan (pre @ e # post)))) message
            \<and> sublist (quote_json_string e) message" by blast
  have concrete: "verify \<lparr>replace = VArr [''a=1'', ''a=2''] Map.empty\<rparr>
           = (\<lparr>replace = VObj [''a'' \<mapsto> VStr ''1'', ''delimiters'' \<mapsto> delimiters_marker]\<rparr>,
              Some (NonFatalError (''plugin-replace verification failure:'' @ [CHR 0x0A]
                @ ''- the following entries overwrite previous entries [''
                @ [CHR 0x22] @ ''a=2'' @ [CHR 0x22] @ ''].'')))"
    by (simp add: evaluate)
  show ?thesis using step dup(3) warn listed thrown concrete by blast
qed

text \<open>The scan of \<^verbatim>\<open>["a=1", "a=2"]\<close>: the second entry meets the key of the first.\<close>

theorem C1_duplicate_key_flagged_witness:
  "entries (scan ([''a=1''] @ [''a=2''])) = entries (scan [''a=1''])
   \<and> entries (scan [''a=1'']) ''a'' = Some (VStr ''1'')
   \<and> warnEntries (scan ([''a=1''] @ [''a=2''])) = [''a=2'']
   \<and> (\<exists>message. snd (verify \<lparr>replace = VArr [''a=1'', ''a=2''] Map.empty\<rparr>)
          = Some (NonFatalError message)
        \<and> sublist (quote_json_string ''a=2'') message)"
proof -
  let ?fl = "\<lparr>replace = VArr [''a=1'', ''a=2''] Map.empty\<rparr>"
  have h1: "replace ?fl = VArr ([''a=1''] @ ''a=2'' # []) Map.empty" by simp
  have h2: "regex_exec ''a=2'' = Some [''a=2'', ''a'', ''2'']" by (simp add: evaluate)
  have h3: "has_property (entries (scan [''a=1''])) ([''a=2'', ''a'', ''2''] ! 1)"
    by (simp add: evaluate)
  have b: "entries (scan [''a=1'']) ''a'' = Some (VStr ''1'')" by (simp add: evaluate)
  have w: "warnEntries (scan [''a=1'']) = []" by (simp add: evaluate)
  show ?thesis
    using C1_duplicate_key_flagged [OF h1 h2 h3] b w by auto
qed

text \<open>
  Claim C2, as amended. Let \<open>a\<close> and \<open>b\<close> be non-empty strings without line terminators,
  \<open>a\<close> without \<^verbatim>\<open>=\<close> and \<open>b\<close> without \<^verbatim>\<open>=\<close> before its last character, \<open>a\<close> not the name of a
  property of \<^verbatim>\<open>Object.prototype\<close> and not \<^verbatim>\<open>delimiters\<close>. Then verifying the one-element
  array of \<open>a=b\<close> throws nothing and stores the map that binds \<open>a\<close> to \<open>b\<close>, tagged with
  the delimiters marker.
\<close>

theorem C2_single_entry_stored:
  assumes "replace fl = VArr [a @ ''='' @ b] ps"
    and "a \<noteq> []" "b \<noteq> []"
    and "CHR ''='' \<notin> set a" "CHR ''='' \<notin> set (butlast b)"
    and "\<forall>c \<in> set (a @ b). \<not> is_line_terminator c"
    and "a \<notin> set object_prototype_keys" "a \<noteq> ''delimiters''"
  shows "verify fl
           = (fl\<lparr>replace := VObj [a \<mapsto> VStr b, ''delimiters'' \<mapsto> delimiters_marker]\<rparr>, None)
       \<and> [a \<mapsto> VStr b, ''delimiters'' \<mapsto> delimiters_marker] a = Some (VStr b)"
proof -
  have "\<forall>c \<in> set (a @ ''='' @ b). \<not> is_line_terminator c"
    using assms(6) equals_not_terminator by auto
  with assms(2,3,5) have m: "regex_exec (a @ ''='' @ b) = Some [a @ ''='' @ b, a, b]"
    by (intro regex_exec_split)
  have "\<not> has_property Map.empty ([a @ ''='' @ b, a, b] ! 1)"
    using assms(7) by (simp add: has_property_def)
  from scan_single [OF m this]
  have "scan [a @ ''='' @ b] = \<lparr>entries = [a \<mapsto> VStr b], badEntries = [], warnEntries = []\<rparr>"
    by simp
  then show ?thesis using assms(8) by (simp add: verify_array [OF assms(1)])
qed

text \<open>The entry \<^verbatim>\<open>"a=b"\<close>.\<close>

theorem C2_single_entry_stored_witness:
  "verify \<lparr>replace = VArr [''a'' @ ''='' @ ''b''] Map.empty\<rparr>
     = (\<lparr>replace = VObj [''a'' \<mapsto> VStr ''b'', ''delimiters'' \<mapsto> delimiters_marker]\<rparr>, None)"
proof -
  let ?fl = "\<lparr>replace = VArr [''a'' @ ''='' @ ''b''] Map.empty\<rparr>"
  have h1: "replace ?fl = VArr [''a'' @ ''='' @ ''b''] Map.empty" by simp
  have h2: "''a'' \<noteq> []" and h3: "''b'' \<noteq> []" by simp_all
  have h4: "CHR ''='' \<notin> set ''a''" and h5: "CHR ''='' \<notin> set (butlast ''b'')" by simp_all
  have h6: "\<forall>c \<in> set (''a'' @ ''b''). \<not> is_line_terminator c"
    by (simp add: is_line_terminator_def)
  have h7: "''a'' \<notin> set object_prototype_keys" by (simp add: object_prototype_keys_def)
  have h8: "''a'' \<noteq> ''delimiters''" by simp
  from C2_single_entry_stored [OF h1 h2 h3 h4 h5 h6 h7 h8]
  show ?thesis by simp
qed

text \<open>
  Claim C2 as written fails: for \<open>a\<close> = \<^verbatim>\<open>toString\<close> an error is thrown and nothing is
  stored under the key; for \<open>b\<close> = \<^verbatim>\<open>=c\<close> the key is \<^verbatim>\<open>a=\<close> and the value \<^verbatim>\<open>c\<close>; for
  \<open>a\<close> = \<^verbatim>\<open>delimiters\<close> the binding is overwritten by the marker; for \<open>b\<close> a line feed
  the entry is malformed.
\<close>

theorem C2_single_entry_counterexample:
  "verify \<lparr>replace = VArr [''toString'' @ ''='' @ ''1''] Map.empty\<rparr>
     = (\<lparr>replace = VObj [''delimiters'' \<mapsto> delimiters_marker]\<rparr>,
        Some (NonFatalError (''plugin-replace verification failure:'' @ [CHR 0x0A]
          @ ''- the following entries overwrite previous entries [''
          @ [CHR 0x22] @ ''toString=1'' @ [CHR 0x22] @ ''].'')))
   \<and> verify \<lparr>replace = VArr [''a'' @ ''='' @ ''=c''] Map.empty\<rparr>
     = (\<lparr>replace = VObj [''a='' \<mapsto> VStr ''c'', ''delimiters'' \<mapsto> delimiters_marker]\<rparr>, None)
   \<and> verify \<lparr>replace = VArr [''delimiters'' @ ''='' @ ''x''] Map.empty\<rparr>
     = (\<lparr>replace = VObj [''delimiters'' \<mapsto> delimiters_marker]\<rparr>, None)
   \<and> verify \<lparr>replace = VArr [''a'' @ ''='' @ [CHR 0x0A]] Map.empty\<rparr>
     = (\<lparr>replace = VObj [''delimiters'' \<mapsto> delimiters_marker]\<rparr>,
        Some (NonFatalError (''plugin-replace verification failure:'' @ [CHR 0x0A]
          @ ''- can not parse ['' @ [CHR 0x22] @ ''a='' @ [CHR 0x5C] @ ''n'' @ [CHR 0x22]
          @ ''] each entry must be a 'string' in the format of '<xxx>=<yyy>'.'')))"
  by (simp add: evaluate)

text \<open>
  Claim C3. For every array-valued flag, \<^verbatim>\<open>verify\<close> leaves in \<^verbatim>\<open>flags.replace\<close> the map
  accumulated by the scan (tagged with the delimiters marker), whatever the outcome: the
  statement makes no assumption on whether an error is thrown, so when one is thrown the
  stored value is already the partial map and no longer an array. Every binding of that
  map comes from a well-formed entry of the array: its key is the first group and its
  value the second group of the match.
\<close>

theorem C3_flag_replaced_before_error:
  assumes "replace fl = VArr es ps"
  shows "fst (verify fl)
           = fl\<lparr>replace := VObj ((entries (scan es))(''delimiters'' \<mapsto> delimiters_marker))\<rparr>
       \<and> \<not> isArray (replace (fst (verify fl)))
       \<and> (\<forall>k v. entries (scan es) k = Some v \<longrightarrow>
            (\<exists>e m. e \<in> set es \<and> regex_exec e = Some m \<and> m ! 1 = k \<and> v = VStr (m ! 2)))"
proof -
  have "\<exists>e m. e \<in> set es \<and> regex_exec e = Some m \<and> m ! 1 = k \<and> v = VStr (m ! 2)"
    if "entries (scan es) k = Some v" for k v
    using that by (rule scan_origin)
  then show ?thesis using assms by (simp add: verify_array)
qed

text \<open>
  On \<^verbatim>\<open>["bad", "a=1", "a=2"]\<close> an error is thrown and the stored value is the partial map.
\<close>

theorem C3_flag_replaced_before_error_witness:
  "fst (verify \<lparr>replace = VArr [''bad'', ''a=1'', ''a=2''] Map.empty\<rparr>)
     = \<lparr>replace = VObj [''a'' \<mapsto> VStr ''1'', ''delimiters'' \<mapsto> delimiters_marker]\<rparr>
   \<and> snd (verify \<lparr>replace = VArr [''bad'', ''a=1'', ''a=2''] Map.empty\<rparr>) \<noteq> None
   \<and> \<not> isArray (replace (fst (verify \<lparr>replace = VArr [''bad'', ''a=1'', ''a=2''] Map.empty\<rparr>)))"
proof -
  let ?fl = "\<lparr>replace = VArr [''bad'', ''a=1'', ''a=2''] Map.empty\<rparr>"
  have h: "replace ?fl = VArr [''bad'', ''a=1'', ''a=2''] Map.empty" by simp
  have s: "entries (scan [''bad'', ''a=1'', ''a=2'']) = [''a'' \<mapsto> VStr ''1'']"
    by (simp add: evaluate)
  have e: "snd (verify ?fl) \<noteq> None" by (simp add: evaluate)
  show ?thesis
    using C3_flag_replaced_before_error [OF h] s e by simp
qed

text \<open>
  Claim C4, as amended. For an entry without line terminators that holds more than one
  \<^verbatim>\<open>=\<close> and does not end in \<^verbatim>\<open>=\<close>, the match of the pattern is the split on the last
  \<^verbatim>\<open>=\<close>: the first group is everything before it, the second group everything after it.
\<close>

theorem C4_rightmost_equals_separates:
  assumes "1 < length (filter (\<lambda>c. c = CHR ''='') s)"
    and "last s \<noteq> CHR ''=''"
    and "\<forall>c \<in> set s. \<not> is_line_terminator c"
  shows "\<exists>k v. split_last_equals s = Some (k, v) \<and> regex_exec s = Some [s, k, v]"
proof -
  from assms(1) have "filter (\<lambda>c. c = CHR ''='') s \<noteq> []" by auto
  then have "CHR ''='' \<in> set s" by (auto simp: filter_empty_conv)
  then obtain k v where kv: "split_last_equals s = Some (k, v)" "s = k @ ''='' @ v"
    "CHR ''='' \<notin> set v"
    by (rule split_last_equals_decomp)
  have v: "v \<noteq> []" using assms(2) kv(2) by auto
  have "filter (\<lambda>c. c = CHR ''='') v = []" using kv(3) by (auto simp: filter_empty_conv)
  with assms(1) kv(2) have "0 < length (filter (\<lambda>c. c = CHR ''='') k)" by simp
  then have k: "k \<noteq> []" by auto
  have "CHR ''='' \<notin> set (butlast v)" using kv(3) by (auto dest: in_set_butlastD)
  with k v assms(3) have "regex_exec (k @ ''='' @ v) = Some [k @ ''='' @ v, k, v]"
    unfolding kv(2) by (intro regex_exec_split)
  with kv show ?thesis by simp
qed

text \<open>The entry \<^verbatim>\<open>"a=b=c"\<close> yields the key \<^verbatim>\<open>a=b\<close> and the value \<^verbatim>\<open>c\<close>.\<close>

theorem C4_rightmost_equals_separates_witness:
  "split_last_equals ''a=b=c'' = Some (''a=b'', ''c'')
   \<and> regex_exec ''a=b=c'' = Some [''a=b=c'', ''a=b'', ''c'']"
proof -
  have h1: "1 < length (filter (\<lambda>c. c = CHR ''='') ''a=b=c'')" by simp
  have h2: "last ''a=b=c'' \<noteq> CHR ''=''" by simp
  have h3: "\<forall>c \<in> set ''a=b=c''. \<not> is_line_terminator c" by (simp add: is_line_terminator_def)
  have s: "split_last_equals ''a=b=c'' = Some (''a=b'', ''c'')"
    by (simp add: split_last_equals_def)
  from C4_rightmost_equals_separates [OF h1 h2 h3] s show ?thesis by simp
qed

text \<open>
  Claim C4 as written fails: \<^verbatim>\<open>"a=b="\<close> holds two \<^verbatim>\<open>=\<close>, and the pattern separates at
  the first one, since nothing follows the last; and in an entry with a line feed the
  match starts after the line feed, so the key is not everything before the last \<^verbatim>\<open>=\<close>.
\<close>

theorem C4_rightmost_equals_counterexample:
  "regex_exec ''a=b='' = Some [''a=b='', ''a'', ''b='']
   \<and> split_last_equals ''a=b='' = Some (''a=b'', '''')
   \<and> regex_exec (''x'' @ [CHR 0x0A] @ ''a=b=c'') = Some [''a=b=c'', ''a=b'', ''c'']
   \<and> split_last_equals (''x'' @ [CHR 0x0A] @ ''a=b=c'') = Some (''x'' @ [CHR 0x0A] @ ''a=b'', ''c'')"
  by (simp add: evaluate split_last_equals_def)

text \<open>
  Claim C5. When the array holds an entry with no \<^verbatim>\<open>=\<close>, or with empty text on one side
  of each of its \<^verbatim>\<open>=\<close>, the entry is put on \<^verbatim>\<open>badEntries\<close> and \<^verbatim>\<open>verify\<close> throws a
  \<^verbatim>\<open>NonFatalError\<close>: the message starts with the preface and the section of the malformed
  entries, which lists the entry as \<^verbatim>\<open>JSON.stringify\<close> writes it and states the shape
  \<^verbatim>\<open>'<xxx>=<yyy>'\<close>. Such entries add nothing to the map: the scan builds the same map
  without them.
\<close>

theorem C5_malformed_entries_reported:
  assumes "replace fl = VArr es ps"
    and "e \<in> set es" "lacks_separator e"
  shows "e \<in> set (badEntries (scan es))
       \<and> (\<exists>message. snd (verify fl) = Some (NonFatalError message)
            \<and> prefix (preface @ bad_section (badEntries (scan es))) message
            \<and> sublist (quote_json_string e) message
            \<and> sublist ''entry must be a 'string' in the format of '<xxx>=<yyy>'.'' message)
       \<and> entries (scan es) = entries (scan (filter (\<lambda>x. \<not> lacks_separator x) es))"
proof -
  have listed: "e \<in> set (badEntries (scan es))"
    using assms(2,3) by (simp add: scan_bad lacks_separator_no_match)
  obtain message where msg: "snd (verify fl) = Some (NonFatalError message)"
    "prefix (preface @ bad_section (badEntries (scan es))) message"
    using verify_bad_message [OF assms(1) listed] by blast
  from msg(2) have sec: "sublist (bad_section (badEntries (scan es))) message"
    by (auto simp: prefix_def sublist_def)
  have "sublist (quote_json_string e) message"
    using sublist_bad_section [OF listed] sec by (rule sublist_order.order_trans)
  moreover have "sublist ''entry must be a 'string' in the format of '<xxx>=<yyy>'.'' message"
    using sublist_shape_bad_section sec by (rule sublist_order.order_trans)
  ultimately have thrown: "\<exists>message. snd (verify fl) = Some (NonFatalError message)
            \<and> prefix (preface @ bad_section (badEntries (scan es))) message
            \<and> sublist (quote_json_string e) message
            \<and> sublist ''entry must be a 'string' in the format of '<xxx>=<yyy>'.'' message"
    using msg by blast
  have "\<forall>x \<in> set es. \<not> \<not> lacks_separator x \<longrightarrow> regex_exec x = None"
    by (simp add: lacks_separator_no_match)
  then have "entries (foldl scan_entry scan_init es)
      = entries (foldl scan_entry scan_init (filter (\<lambda>x. \<not> lacks_separator x) es))"
    by (intro foldl_scan_entries_cong) simp_all
  then have same: "entries (scan es) = entries (scan (filter (\<lambda>x. \<not> lacks_separator x) es))"
    by (simp add: scan_def)
  from listed thrown same show ?thesis by blast
qed

text \<open>The entries \<^verbatim>\<open>"abc"\<close> and \<^verbatim>\<open>"=a="\<close> beside the well-formed \<^verbatim>\<open>"x=1"\<close>.\<close>

theorem C5_malformed_entries_reported_witness:
  "lacks_separator ''abc'' \<and> lacks_separator ''=a='' \<and>
   verify \<lparr>replace = VArr [''abc'', ''x=1'', ''=a=''] Map.empty\<rparr>
     = (\<lparr>replace = VObj [''x'' \<mapsto> VStr ''1'', ''delimiters'' \<mapsto> delimiters_marker]\<rparr>,
        Some (NonFatalError (''plugin-replace verification failure:'' @ [CHR 0x0A]
          @ ''- can not parse ['' @ [CHR 0x22] @ ''abc'' @ [CHR 0x22] @ '',''
          @ [CHR 0x22] @ ''=a='' @ [CHR 0x22]
          @ ''] each entry must be a 'string' in the format of '<xxx>=<yyy>'.'')))
   \<and> ''abc'' \<in> set (badEntries (scan [''abc'', ''x=1'', ''=a='']))
   \<and> entries (scan [''abc'', ''x=1'', ''=a='']) = entries (scan [''x=1''])"
proof -
  let ?es = "[''abc'', ''x=1'', ''=a='']"
  let ?fl = "\<lparr>replace = VArr ?es Map.empty\<rparr>"
  have h1: "replace ?fl = VArr ?es Map.empty" by simp
  have h2: "''abc'' \<in> set ?es" by simp
  have h3: "lacks_separator ''abc''" by (simp add: lacks_separator_def)
  have h4: "lacks_separator ''=a=''" by (simp add: lacks_separator_def)
  have h5: "\<not> lacks_separator ''x=1''" by (simp add: lacks_separator_def)
  have v: "verify ?fl
     = (\<lparr>replace = VObj [''x'' \<mapsto> VStr ''1'', ''delimiters'' \<mapsto> delimiters_marker]\<rparr>,
        Some (NonFatalError (''plugin-replace verification failure:'' @ [CHR 0x0A]
          @ ''- can not parse ['' @ [CHR 0x22] @ ''abc'' @ [CHR 0x22] @ '',''
          @ [CHR 0x22] @ ''=a='' @ [CHR 0x22]
          @ ''] each entry must be a 'string' in the format of '<xxx>=<yyy>'.'')))"
    by (simp add: evaluate)
  have f: "filter (\<lambda>x. \<not> lacks_separator x) ?es = [''x=1'']"
    using h3 h4 h5 by simp
  note t = C5_malformed_entries_reported [OF h1 h2 h3]
  from t have a: "''abc'' \<in> set (badEntries (scan ?es))" by (rule conjunct1)
  from t have "entries (scan ?es) = entries (scan (filter (\<lambda>x. \<not> lacks_separator x) ?es))"
    by (elim conjE)
  then have b: "entries (scan ?es) = entries (scan [''x=1''])" by (simp only: f)
  from h3 h4 v a b show ?thesis by (intro conjI)
qed

text \<open>
  Claim C6, as amended. Called with a \<^verbatim>\<open>null\<close> context, the default function does not
  consult the environment and returns \<^verbatim>\<open>undefined\<close>. Called with any other context, it
  returns \<^verbatim>\<open>undefined\<close> when the variable \<^verbatim>\<open><PREFIX>_REPLACE\<close> is not a string; throws a
  \<^verbatim>\<open>NonFatalError\<close> naming the variable and ending with the parser's message when the
  text does not parse; throws a \<^verbatim>\<open>NonFatalError\<close> asking to format the variable as a JSON
  array when the parsed value is not an array; and returns the parsed array otherwise.
\<close>

theorem C6_default_resolver:
  "flag_default JSON_parse env_prefix True process_env = Inr None
   \<and> (typeof (process_env (env_prefix @ ''_REPLACE'')) \<noteq> ''string'' \<longrightarrow>
        flag_default JSON_parse env_prefix False process_env = Inr None)
   \<and> (process_env (env_prefix @ ''_REPLACE'') = VStr text \<and> JSON_parse text = Inl message \<longrightarrow>
        flag_default JSON_parse env_prefix False process_env
          = Inl (NonFatalError
              (''Could not parse '' @ [CHR 0x27] @ env_prefix @ ''_REPLACE'' @ [CHR 0x27]
                 @ '' as a JSON array;'' @ [CHR 0x0A] @ message)))
   \<and> (process_env (env_prefix @ ''_REPLACE'') = VStr text \<and> JSON_parse text = Inr result
        \<and> \<not> json_isArray result \<longrightarrow>
        flag_default JSON_parse env_prefix False process_env
          = Inl (NonFatalError
              (''Please format '' @ [CHR 0x27] @ env_prefix @ ''_REPLACE'' @ [CHR 0x27]
                 @ '' as a JSON array.'')))
   \<and> (process_env (env_prefix @ ''_REPLACE'') = VStr text \<and> JSON_parse text = Inr result
        \<and> json_isArray result \<longrightarrow>
        flag_default JSON_parse env_prefix False process_env = Inr (Some result))"
  by (cases "process_env (env_prefix @ ''_REPLACE'')") (simp_all add: flag_default_def)

text \<open>
  The four cases with the prefix \<^verbatim>\<open>DEPLOY\<close>: the variable unset, and set to \<^verbatim>\<open>nope\<close>,
  \<^verbatim>\<open>{}\<close> and \<^verbatim>\<open>[]\<close>, with a parser that answers as \<^verbatim>\<open>JSON.parse\<close> does on that text.
\<close>

theorem C6_default_resolver_witness:
  "flag_default (\<lambda>text. Inr (JArray [])) ''DEPLOY'' False
      (\<lambda>name. VUndefined) = Inr None
   \<and> flag_default (\<lambda>text. Inl ''Unexpected token n in JSON at position 0'') ''DEPLOY'' False
      ((\<lambda>name. VUndefined)(''DEPLOY_REPLACE'' := VStr ''nope''))
       = Inl (NonFatalError (''Could not parse '' @ [CHR 0x27] @ ''DEPLOY_REPLACE'' @ [CHR 0x27]
               @ '' as a JSON array;'' @ [CHR 0x0A] @ ''Unexpected token n in JSON at position 0''))
   \<and> flag_default (\<lambda>text. Inr (JObject [])) ''DEPLOY'' False
      ((\<lambda>name. VUndefined)(''DEPLOY_REPLACE'' := VStr ''{}''))
       = Inl (NonFatalError (''Please format '' @ [CHR 0x27] @ ''DEPLOY_REPLACE'' @ [CHR 0x27]
               @ '' as a JSON array.''))
   \<and> flag_default (\<lambda>text. Inr (JArray [])) ''DEPLOY'' False
      ((\<lambda>name. VUndefined)(''DEPLOY_REPLACE'' := VStr ''[]''))
       = Inr (Some (JArray []))"
proof -
  let ?unset = "\<lambda>name::string. VUndefined"
  let ?arr = "\<lambda>text::string. Inr (JArray []) :: string + json"
  let ?obj = "\<lambda>text::string. Inr (JObject []) :: string + json"
  let ?err = "\<lambda>text::string. Inl ''Unexpected token n in JSON at position 0'' :: string + json"
  have a: "flag_default ?arr ''DEPLOY'' False ?unset = Inr None"
    using C6_default_resolver [of ?arr "''DEPLOY''" ?unset] by simp
  have b: "flag_default ?err ''DEPLOY'' False (?unset(''DEPLOY_REPLACE'' := VStr ''nope''))
       = Inl (NonFatalError (''Could not parse '' @ [CHR 0x27] @ ''DEPLOY_REPLACE'' @ [CHR 0x27]
               @ '' as a JSON array;'' @ [CHR 0x0A] @ ''Unexpected token n in JSON at position 0''))"
    using C6_default_resolver [of ?err "''DEPLOY''" "?unset(''DEPLOY_REPLACE'' := VStr ''nope'')"
        "''nope''" "''Unexpected token n in JSON at position 0''"]
    by simp
  have c: "flag_default ?obj ''DEPLOY'' False (?unset(''DEPLOY_REPLACE'' := VStr ''{}''))
       = Inl (NonFatalError (''Please format '' @ [CHR 0x27] @ ''DEPLOY_REPLACE'' @ [CHR 0x27]
               @ '' as a JSON array.''))"
    using C6_default_resolver [of ?obj "''DEPLOY''" "?unset(''DEPLOY_REPLACE'' := VStr ''{}'')"
        "''{}''" _ "JObject []"]
    by simp
  have d: "flag_default ?arr ''DEPLOY'' False (?unset(''DEPLOY_REPLACE'' := VStr ''[]''))
       = Inr (Some (JArray []))"
    using C6_default_resolver [of ?arr "''DEPLOY''" "?unset(''DEPLOY_REPLACE'' := VStr ''[]'')"
        "''[]''" _ "JArray []"]
    by simp
  from a b c d show ?thesis by (intro conjI)
qed

text \<open>
  Claim C6 as written fails for a \<^verbatim>\<open>null\<close> context: the variable holds \<^verbatim>\<open>[]\<close>, which
  parses to an array, and the function returns \<^verbatim>\<open>undefined\<close>.
\<close>

theorem C6_default_resolver_counterexample:
  "json_isArray (JArray [])
   \<and> flag_default (\<lambda>text. Inr (JArray [])) ''DEPLOY'' True
        ((\<lambda>name. VUndefined)(''DEPLOY_REPLACE'' := VStr ''[]'')) = Inr None
   \<and> flag_default (\<lambda>text. Inr (JArray [])) ''DEPLOY'' True
        ((\<lambda>name. VUndefined)(''DEPLOY_REPLACE'' := VStr ''[]''))
       \<noteq> Inr (Some (JArray []))"
  by (simp add: flag_default_def)

text \<open>
  Claim C7, as amended. When \<^verbatim>\<open>cliFlags\<close> is present and \<^verbatim>\<open>cliFlags.replace\<close> is an object
  or an array (an array of raw strings included: its \<^verbatim>\<open>typeof\<close> is \<^verbatim>\<open>'object'\<close>),
  \<^verbatim>\<open>getInputPlugin\<close> assigns \<^verbatim>\<open>preventAssignment: true\<close> to that value and returns what the
  imported \<^verbatim>\<open>replace\<close> makes of it. It returns \<^verbatim>\<open>undefined\<close> when \<^verbatim>\<open>cliFlags\<close> is missing,
  when no argument is given, and when the \<^verbatim>\<open>typeof\<close> of \<^verbatim>\<open>cliFlags.replace\<close> is not
  \<^verbatim>\<open>'object'\<close>. The revision in \<^verbatim>\<open>src/loader/PluginLoader.js\<close> passes the value on as
  it is, without the option.
\<close>

theorem C7_transform_configuration:
  "(cliFlags b = Some fl \<and> replace fl = VObj own \<longrightarrow>
      getInputPlugin replace_plugin (Some b)
        = (b\<lparr>cliFlags := Some (fl\<lparr>replace := VObj (own(''preventAssignment'' \<mapsto> VBool True))\<rparr>)\<rparr>,
           Inr (Some (replace_plugin (VObj (own(''preventAssignment'' \<mapsto> VBool True)))))))
   \<and> (cliFlags b = Some fl \<and> replace fl = VArr xs ps \<longrightarrow>
      getInputPlugin replace_plugin (Some b)
        = (b\<lparr>cliFlags := Some (fl\<lparr>replace := VArr xs (ps(''preventAssignment'' \<mapsto> VBool True))\<rparr>)\<rparr>,
           Inr (Some (replace_plugin (VArr xs (ps(''preventAssignment'' \<mapsto> VBool True)))))))
   \<and> (cliFlags b = Some fl \<and> typeof (replace fl) \<noteq> ''object'' \<longrightarrow>
      getInputPlugin replace_plugin (Some b) = (b, Inr None))
   \<and> (cliFlags b = None \<longrightarrow> getInputPlugin replace_plugin (Some b) = (b, Inr None))
   \<and> snd (getInputPlugin replace_plugin None) = Inr None
   \<and> (cliFlags b = Some fl \<and> typeof (replace fl) = ''object'' \<longrightarrow>
      getInputPlugin_unassigned replace_plugin (Some b)
        = (b, Inr (Some (replace_plugin (replace fl)))))"
  by (simp add: getInputPlugin_def getInputPlugin_unassigned_def Let_def)

text \<open>
  The cases on concrete configurations, with the identity standing for the imported
  \<^verbatim>\<open>replace\<close>, so that the result shows the argument it receives.
\<close>

theorem C7_transform_configuration_witness:
  "snd (getInputPlugin (\<lambda>config. config)
          (Some \<lparr>cliFlags = Some \<lparr>replace = VObj [''a'' \<mapsto> VStr ''1'']\<rparr>\<rparr>))
     = Inr (Some (VObj [''a'' \<mapsto> VStr ''1'', ''preventAssignment'' \<mapsto> VBool True]))
   \<and> snd (getInputPlugin (\<lambda>config. config)
          (Some \<lparr>cliFlags = Some \<lparr>replace = VArr [''a=1''] Map.empty\<rparr>\<rparr>))
     = Inr (Some (VArr [''a=1''] [''preventAssignment'' \<mapsto> VBool True]))
   \<and> snd (getInputPlugin (\<lambda>config. config)
          (Some \<lparr>cliFlags = Some \<lparr>replace = VUndefined\<rparr>\<rparr>)) = Inr None
   \<and> snd (getInputPlugin (\<lambda>config. config) (Some \<lparr>cliFlags = None\<rparr>)) = Inr None
   \<and> snd (getInputPlugin_unassigned (\<lambda>config. config)
          (Some \<lparr>cliFlags = Some \<lparr>replace = VObj [''a'' \<mapsto> VStr ''1'']\<rparr>\<rparr>))
     = Inr (Some (VObj [''a'' \<mapsto> VStr ''1'']))"
proof -
  let ?id = "\<lambda>config::jsval. config"
  let ?obj = "\<lparr>replace = VObj [''a'' \<mapsto> VStr ''1'']\<rparr>"
  let ?arr = "\<lparr>replace = VArr [''a=1''] Map.empty\<rparr>"
  let ?und = "\<lparr>replace = VUndefined\<rparr>"
  have a: "snd (getInputPlugin ?id (Some \<lparr>cliFlags = Some ?obj\<rparr>))
     = Inr (Some (VObj [''a'' \<mapsto> VStr ''1'', ''preventAssignment'' \<mapsto> VBool True]))"
    using C7_transform_configuration [of "\<lparr>cliFlags = Some ?obj\<rparr>" ?obj "[''a'' \<mapsto> VStr ''1'']" ?id]
    by simp
  have b: "snd (getInputPlugin ?id (Some \<lparr>cliFlags = Some ?arr\<rparr>))
     = Inr (Some (VArr [''a=1''] [''preventAssignment'' \<mapsto> VBool True]))"
    using C7_transform_configuration [of "\<lparr>cliFlags = Some ?arr\<rparr>" ?arr _ ?id "[''a=1'']" Map.empty]
    by simp
  have c: "snd (getInputPlugin ?id (Some \<lparr>cliFlags = Some ?und\<rparr>)) = Inr None"
    using C7_transform_configuration [of "\<lparr>cliFlags = Some ?und\<rparr>" ?und _ ?id]
    by simp
  have d: "snd (getInputPlugin ?id (Some \<lparr>cliFlags = None\<rparr>)) = Inr None"
    using C7_transform_configuration [of "\<lparr>cliFlags = None\<rparr>" _ _ ?id]
    by simp
  have e: "snd (getInputPlugin_unassigned ?id (Some \<lparr>cliFlags = Some ?obj\<rparr>))
     = Inr (Some (VObj [''a'' \<mapsto> VStr ''1'']))"
    using C7_transform_configuration [of "\<lparr>cliFlags = Some ?obj\<rparr>" ?obj _ ?id]
    by simp
  from a b c d e show ?thesis by (intro conjI)
qed

text \<open>
  Claim C7 as written fails: for \<^verbatim>\<open>replace\<close> still an array of raw strings
  \<^verbatim>\<open>getInputPlugin\<close> returns a configuration, not \<^verbatim>\<open>undefined\<close>; and the revision in
  \<^verbatim>\<open>src/loader/PluginLoader.js\<close> returns the map without \<^verbatim>\<open>preventAssignment\<close>.
\<close>

theorem C7_transform_configuration_counterexample:
  "\<not> isArray (VObj [''a'' \<mapsto> VStr ''1''])
   \<and> snd (getInputPlugin (\<lambda>config. config)
          (Some \<lparr>cliFlags = Some \<lparr>replace = VArr [''a=1''] Map.empty\<rparr>\<rparr>))
     = Inr (Some (VArr [''a=1''] [''preventAssignment'' \<mapsto> VBool True]))
   \<and> snd (getInputPlugin (\<lambda>config. config)
          (Some \<lparr>cliFlags = Some \<lparr>replace = VArr [''a=1''] Map.empty\<rparr>\<rparr>))
     \<noteq> Inr None
   \<and> snd (getInputPlugin_unassigned (\<lambda>config. config)
          (Some \<lparr>cliFlags = Some \<lparr>replace = VObj [''a'' \<mapsto> VStr ''1'']\<rparr>\<rparr>))
     = Inr (Some (VObj [''a'' \<mapsto> VStr ''1'']))"
  by (simp add: getInputPlugin_def getInputPlugin_unassigned_def Let_def)

text \<open>
  Claim C8. When the array holds an entry the pattern does not match and an entry whose
  key is already present when it is scanned, \<^verbatim>\<open>verify\<close> throws one \<^verbatim>\<open>NonFatalError\<close>: its
  message is the preface, the section of the malformed entries, a line feed, and the
  section of the overwriting entries, in this order.
\<close>

theorem C8_combined_message_order:
  assumes "replace fl = VArr es ps"
    and "bad \<in> set es" "regex_exec bad = None"
    and "es = pre @ dup # post" "regex_exec dup = Some m"
    and "has_property (entries (scan pre)) (m ! 1)"
  shows "snd (verify fl) = Some (NonFatalError
           (preface @ bad_section (badEntries (scan es)) @ [CHR 0x0A]
              @ warn_section (warnEntries (scan es))))
       \<and> bad \<in> set (badEntries (scan es)) \<and> dup \<in> set (warnEntries (scan es))"
proof -
  have b: "bad \<in> set (badEntries (scan es))"
    using assms(2,3) by (simp add: scan_bad)
  have w: "dup \<in> set (warnEntries (scan es))"
    unfolding assms(4) using assms(5,6) by (rule scan_duplicate(2))
  from b have "badEntries (scan es) \<noteq> []" by auto
  moreover from w have "warnEntries (scan es) \<noteq> []" by auto
  ultimately show ?thesis
    using b w by (simp add: verify_array [OF assms(1)])
qed

text \<open>The message for \<^verbatim>\<open>["bad", "a=1", "a=2"]\<close>.\<close>

theorem C8_combined_message_order_witness:
  "snd (verify \<lparr>replace = VArr [''bad'', ''a=1'', ''a=2''] Map.empty\<rparr>)
     = Some (NonFatalError
         (''plugin-replace verification failure:'' @ [CHR 0x0A]
           @ ''- can not parse ['' @ [CHR 0x22] @ ''bad'' @ [CHR 0x22]
           @ ''] each entry must be a 'string' in the format of '<xxx>=<yyy>'.''
           @ [CHR 0x0A]
           @ ''- the following entries overwrite previous entries [''
           @ [CHR 0x22] @ ''a=2'' @ [CHR 0x22] @ ''].''))"
proof -
  let ?fl = "\<lparr>replace = VArr [''bad'', ''a=1'', ''a=2''] Map.empty\<rparr>"
  have h1: "replace ?fl = VArr [''bad'', ''a=1'', ''a=2''] Map.empty" by simp
  have h2: "''bad'' \<in> set [''bad'', ''a=1'', ''a=2'']" by simp
  have h3: "regex_exec ''bad'' = None" by (simp add: evaluate)
  have h4: "[''bad'', ''a=1'', ''a=2''] = [''bad'', ''a=1''] @ ''a=2'' # []" by simp
  have h5: "regex_exec ''a=2'' = Some [''a=2'', ''a'', ''2'']" by (simp add: evaluate)
  have h6: "has_property (entries (scan [''bad'', ''a=1''])) ([''a=2'', ''a'', ''2''] ! 1)"
    by (simp add: evaluate)
  have b: "badEntries (scan [''bad'', ''a=1'', ''a=2'']) = [''bad'']" by (simp add: evaluate)
  have w: "warnEntries (scan [''bad'', ''a=1'', ''a=2'']) = [''a=2'']" by (simp add: evaluate)
  show ?thesis
    using C8_combined_message_order [OF h1 h2 h3 h4 h5 h6]
    by (simp add: b w preface_def bad_section_def warn_section_def json_stringify_def
        quote_json_string_def quote_char_def)
qed

text \<open>
  Claim C9. A well-formed entry whose key names a property inherited from
  \<^verbatim>\<open>Object.prototype\<close> is found by the \<^verbatim>\<open>in\<close> operator even in the empty map. Every such
  entry, the first one included, is put on \<^verbatim>\<open>warnEntries\<close>; the key never becomes an own
  property of the map, neither during the scan nor in the stored object; and \<^verbatim>\<open>verify\<close>
  throws a \<^verbatim>\<open>NonFatalError\<close> whose message lists the entry.
\<close>

theorem C9_prototype_key_is_duplicate:
  assumes "replace fl = VArr es ps"
    and "e \<in> set es" "regex_exec e = Some m"
    and "m ! 1 \<in> set object_prototype_keys"
  shows "has_property Map.empty (m ! 1)
       \<and> e \<in> set (warnEntries (scan es))
       \<and> entries (scan es) (m ! 1) = None
       \<and> (\<exists>own. replace (fst (verify fl)) = VObj own \<and> own (m ! 1) = None)
       \<and> (\<exists>message. snd (verify fl) = Some (NonFatalError message)
            \<and> sublist (quote_json_string e) message)"
proof -
  have present: "has_property Map.empty (m ! 1)"
    using assms(4) by (simp add: has_property_def)
  have listed: "e \<in> set (warnEntries (scan es))"
    using assms(2,3,4) by (rule prototype_key_flagged)
  have absent: "entries (scan es) (m ! 1) = None"
    using assms(4) by (rule prototype_key_absent)
  have "m ! 1 \<noteq> ''delimiters''"
    using assms(4) by (auto simp: object_prototype_keys_def)
  with absent have stored: "\<exists>own. replace (fst (verify fl)) = VObj own \<and> own (m ! 1) = None"
    by (simp add: verify_array [OF assms(1)])
  obtain message where msg: "snd (verify fl) = Some (NonFatalError message)"
    "sublist (warn_section (warnEntries (scan es))) message"
    using verify_warn_message [OF assms(1) listed] by blast
  have "sublist (quote_json_string e) message"
    using sublist_warn_section [OF listed] msg(2) by (rule sublist_order.order_trans)
  with msg(1) have "\<exists>message. snd (verify fl) = Some (NonFatalError message)
            \<and> sublist (quote_json_string e) message" by blast
  with present listed absent stored show ?thesis by blast
qed

text \<open>The single entry \<^verbatim>\<open>"toString=1"\<close> is reported as overwriting a previous entry.\<close>

theorem C9_prototype_key_is_duplicate_witness:
  "verify \<lparr>replace = VArr [''toString=1''] Map.empty\<rparr>
     = (\<lparr>replace = VObj [''delimiters'' \<mapsto> delimiters_marker]\<rparr>,
        Some (NonFatalError (''plugin-replace verification failure:'' @ [CHR 0x0A]
          @ ''- the following entries overwrite previous entries [''
          @ [CHR 0x22] @ ''toString=1'' @ [CHR 0x22] @ ''].'')))
   \<and> ''toString=1'' \<in> set (warnEntries (scan [''toString=1'']))
   \<and> entries (scan [''toString=1'']) ''toString'' = None"
proof -
  let ?fl = "\<lparr>replace = VArr [''toString=1''] Map.empty\<rparr>"
  have h1: "replace ?fl = VArr [''toString=1''] Map.empty" by simp
  have h2: "''toString=1'' \<in> set [''toString=1'']" by simp
  have h3: "regex_exec ''toString=1'' = Some [''toString=1'', ''toString'', ''1'']"
    by (simp add: evaluate)
  have h4: "[''toString=1'', ''toString'', ''1''] ! 1 \<in> set object_prototype_keys"
    by (simp add: object_prototype_keys_def)
  have v: "verify ?fl
     = (\<lparr>replace = VObj [''delimiters'' \<mapsto> delimiters_marker]\<rparr>,
        Some (NonFatalError (''plugin-replace verification failure:'' @ [CHR 0x0A]
          @ ''- the following entries overwrite previous entries [''
          @ [CHR 0x22] @ ''toString=1'' @ [CHR 0x22] @ ''].'')))"
    by (simp add: evaluate)
  show ?thesis
    using C9_prototype_key_is_duplicate [OF h1 h2 h3 h4] v by simp
qed

text \<open>
  Claim C10. Whenever the flag is an array, the object stored by \<^verbatim>\<open>verify\<close> carries the
  property \<^verbatim>\<open>delimiters\<close> with the value \<^verbatim>\<open>['', '']\<close>, whether or not an error is thrown.
\<close>

theorem C10_delimiters_marker_unconditional:
  assumes "isArray (replace fl)"
  shows "\<exists>m. replace (fst (verify fl)) = VObj m
           \<and> m ''delimiters'' = Some (VArr ['''', ''''] Map.empty)"
proof -
  from assms obtain es ps where "replace fl = VArr es ps"
    by (cases "replace fl") auto
  then show ?thesis by (simp add: verify_array delimiters_marker_def)
qed

text \<open>On \<^verbatim>\<open>["abc"]\<close> an error is thrown and the marker is on the stored object.\<close>

theorem C10_delimiters_marker_unconditional_witness:
  "(\<exists>m. replace (fst (verify \<lparr>replace = VArr [''abc''] Map.empty\<rparr>)) = VObj m
        \<and> m ''delimiters'' = Some (VArr ['''', ''''] Map.empty))
   \<and> snd (verify \<lparr>replace = VArr [''abc''] Map.empty\<rparr>)
       = Some (NonFatalError (''plugin-replace verification failure:'' @ [CHR 0x0A]
           @ ''- can not parse ['' @ [CHR 0x22] @ ''abc'' @ [CHR 0x22]
           @ ''] each entry must be a 'string' in the format of '<xxx>=<yyy>'.''))"
proof -
  have h: "isArray (replace \<lparr>replace = VArr [''abc''] Map.empty\<rparr>)" by simp
  have e: "snd (verify \<lparr>replace = VArr [''abc''] Map.empty\<rparr>)
       = Some (NonFatalError (''plugin-replace verification failure:'' @ [CHR 0x0A]
           @ ''- can not parse ['' @ [CHR 0x22] @ ''abc'' @ [CHR 0x22]
           @ ''] each entry must be a 'string' in the format of '<xxx>=<yyy>'.''))"
    by (simp add: evaluate)
  show ?thesis
    using C10_delimiters_marker_unconditional [OF h] e by blast
qed

end
